theory Spec2Isabelle
  imports Main
begin

section \<open>The polling signal (class EventPollingSignal)\<close>

text \<open>
  The class holds one boolean, \<open>pollingRequested_\<close> (written \<open>pollingRequested\<close>
  here, since a field name cannot end in an underscore), and a mutex. Both member
  functions take a \<open>lock_guard\<close> on the mutex for their whole body, so a call is one
  critical section; the functions below give the effect of one call on the stored
  boolean. The mutex itself, and the statement-by-statement interleaving of two
  threads, are modelled in the section on interleaved calls further down.
\<close>

record EventPollingSignal =
  pollingRequested :: bool

text \<open>The constructor: \<open>EventPollingSignal() : pollingRequested_(true) {}\<close>.\<close>

definition EventPollingSignal_ctor :: EventPollingSignal where
  "EventPollingSignal_ctor = \<lparr>pollingRequested = True\<rparr>"

text \<open>\<open>void requestPolling()\<close>: \<open>pollingRequested_ = true;\<close>\<close>

definition requestPolling :: "EventPollingSignal \<Rightarrow> EventPollingSignal" where
  "requestPolling sig = sig\<lparr>pollingRequested := True\<rparr>"

text \<open>
  \<open>bool collectRequest()\<close>:
  \<open>bool requested = pollingRequested_; pollingRequested_ = false; return requested;\<close>
\<close>

definition collectRequest :: "EventPollingSignal \<Rightarrow> bool \<times> EventPollingSignal" where
  "collectRequest sig =
     (let requested = pollingRequested sig;
          sig' = sig\<lparr>pollingRequested := False\<rparr>
      in (requested, sig'))"

text \<open>Calling \<open>requestPolling\<close> \<open>n\<close> times in a row.\<close>

primrec request_times :: "nat \<Rightarrow> EventPollingSignal \<Rightarrow> EventPollingSignal" where
  "request_times 0 sig = sig"
| "request_times (Suc n) sig = request_times n (requestPolling sig)"

text \<open>
  Calling \<open>collectRequest\<close> \<open>n\<close> times in a row: the values returned, in order, and
  the signal left behind.
\<close>

primrec collect_times :: "nat \<Rightarrow> EventPollingSignal \<Rightarrow> bool list \<times> EventPollingSignal" where
  "collect_times 0 sig = ([], sig)"
| "collect_times (Suc n) sig =
     (let (requested, sig') = collectRequest sig;
          (rest, sig'') = collect_times n sig'
      in (requested # rest, sig''))"

section \<open>The host, the interpreter and the poll callback\<close>

text \<open>
  The host (R) is seen through the state the callback touches: whether interrupt
  delivery is suspended, and everything else (\<open>world\<close>), which only the host's own
  routines interpret. A host routine either returns or leaves by a non-local jump;
  either way it may have changed the host state. \<open>R_ProcessEvents\<close> is external, so
  it is a parameter of everything below.
\<close>

datatype outcome = Returned | Jumped

record 'w host_state =
  interrupts_suspended :: bool
  world :: 'w

type_synonym 'w routine = "'w host_state \<Rightarrow> outcome \<times> 'w host_state"

text \<open>
  Modelled from the spec: the class \<open>reticulate::signals::InterruptsSuspendedScope\<close>
  (signals.h is not among the sources). The spec describes an acquire/release pair,
  acquired on scope entry and released unconditionally on scope exit, that disables
  delivery of host cancellation signals for its duration, after which the suspension
  state is restored to its earlier value. The scope object keeps that earlier value.
\<close>

record InterruptsSuspendedScope =
  saved_suspended :: bool

text \<open>
  Modelled from the spec: the constructor of \<open>InterruptsSuspendedScope\<close>, the acquire
  on scope entry. It notes the suspension state it finds and suspends delivery.
\<close>

definition scope_acquire :: "'w host_state \<Rightarrow> InterruptsSuspendedScope \<times> 'w host_state" where
  "scope_acquire h =
     (\<lparr>saved_suspended = interrupts_suspended h\<rparr>, h\<lparr>interrupts_suspended := True\<rparr>)"

text \<open>
  Modelled from the spec: the destructor of \<open>InterruptsSuspendedScope\<close>, the release
  on scope exit. It puts back the suspension state noted on entry.
\<close>

definition scope_release :: "InterruptsSuspendedScope \<Rightarrow> 'w host_state \<Rightarrow> 'w host_state" where
  "scope_release scope h = h\<lparr>interrupts_suspended := saved_suspended scope\<rparr>"

text \<open>
  Modelled from the spec: \<open>R_ToplevelExec\<close> (declared \<open>extern\<close>, defined by the host).
  The spec's safe top-level execution wrapper takes a function, executes it while
  containing any non-local exit, and returns a status: true when the function
  returned, false when it jumped.
\<close>

definition R_ToplevelExec :: "'w routine \<Rightarrow> 'w host_state \<Rightarrow> bool \<times> 'w host_state" where
  "R_ToplevelExec func h =
     (case func h of (Returned, h') \<Rightarrow> (True, h') | (Jumped, h') \<Rightarrow> (False, h'))"

text \<open>\<open>void processEvents(void* data) { R_ProcessEvents(); }\<close>\<close>

definition processEvents :: "'w routine \<Rightarrow> 'w routine" where
  "processEvents R_ProcessEvents h = R_ProcessEvents h"

text \<open>
  The whole program state: the global \<open>s_pollingSignal\<close>, the host, the callbacks
  queued in the interpreter and not yet run, where the worker thread stands in its
  loop, and a trace of the calls made so far (kept only to state properties).
\<close>

datatype callback = PollForEvents

datatype event =
    SleepFor nat
  | CollectRequest bool
  | AddPendingCall callback
  | RequestPolling

datatype worker_pc = W_sleep | W_collect | W_inject

record 'w system =
  s_pollingSignal :: EventPollingSignal
  host :: "'w host_state"
  pending :: "callback list"
  worker_at :: worker_pc
  trace :: "event list"

text \<open>
  \<open>int pollForEvents(void*)\<close>: the scope object is constructed first, then
  \<open>R_ToplevelExec(processEvents, NULL)\<close> runs and its result is discarded, then
  \<open>s_pollingSignal.requestPolling()\<close>, then \<open>return 0\<close>; the scope's destructor runs
  as the function is left. (\<open>DBG\<close> only prints.)
\<close>

definition pollForEvents :: "'w routine \<Rightarrow> 'w system \<Rightarrow> int \<times> 'w system" where
  "pollForEvents R_ProcessEvents s =
     (let (scope, h1) = scope_acquire (host s);
          (completed, h2) = R_ToplevelExec (processEvents R_ProcessEvents) h1;
          s1 = s\<lparr>host := h2\<rparr>;
          s2 = s1\<lparr>s_pollingSignal := requestPolling (s_pollingSignal s1),
                  trace := trace s1 @ [RequestPolling]\<rparr>;
          status = 0;
          s3 = s2\<lparr>host := scope_release scope (host s2)\<rparr>
      in (status, s3))"

text \<open>
  Modelled from the spec: \<open>Py_AddPendingCall\<close> (libpython is external). The injection
  primitive queues the callback to run later on the interpreter's main thread; it
  may also decline or fail to enqueue, which \<open>enqueued\<close> decides here. The worker
  discards its result.
\<close>

definition Py_AddPendingCall :: "bool \<Rightarrow> callback \<Rightarrow> 'w system \<Rightarrow> 'w system" where
  "Py_AddPendingCall enqueued cb s =
     (let s' = s\<lparr>trace := trace s @ [AddPendingCall cb]\<rparr>
      in if enqueued then s'\<lparr>pending := pending s' @ [cb]\<rparr> else s')"

text \<open>
  \<open>void eventPollingWorker(void*)\<close>, one statement of the endless loop at a time:
  \<open>sleep_for(milliseconds(250))\<close>, then the test \<open>if (s_pollingSignal.collectRequest())\<close>,
  then, only when the test succeeded, \<open>Py_AddPendingCall(pollForEvents, NULL)\<close>, and
  back to the sleep.
\<close>

definition eventPollingWorker_step :: "bool \<Rightarrow> 'w system \<Rightarrow> 'w system" where
  "eventPollingWorker_step enqueued s =
     (case worker_at s of
        W_sleep \<Rightarrow> s\<lparr>worker_at := W_collect, trace := trace s @ [SleepFor 250]\<rparr>
      | W_collect \<Rightarrow>
          (let (requested, sig') = collectRequest (s_pollingSignal s);
               s' = s\<lparr>s_pollingSignal := sig', trace := trace s @ [CollectRequest requested]\<rparr>
           in if requested then s'\<lparr>worker_at := W_inject\<rparr> else s'\<lparr>worker_at := W_sleep\<rparr>)
      | W_inject \<Rightarrow> (Py_AddPendingCall enqueued PollForEvents s)\<lparr>worker_at := W_sleep\<rparr>)"

text \<open>
  One pass through the loop body, from the sleep back to the sleep, with no other
  thread running in between.
\<close>

definition eventPollingWorker_iteration :: "bool \<Rightarrow> 'w system \<Rightarrow> 'w system" where
  "eventPollingWorker_iteration enqueued s =
     (let s1 = eventPollingWorker_step enqueued s;
          s2 = eventPollingWorker_step enqueued s1
      in if worker_at s2 = W_inject then eventPollingWorker_step enqueued s2 else s2)"

text \<open>
  The loop \<open>while (true)\<close> never ends. \<open>eventPollingWorker\<close> runs its first
  iterations, one for each element of the list (which says whether that iteration's
  injection, if any, gets enqueued), again with no other thread in between.
\<close>

primrec eventPollingWorker :: "bool list \<Rightarrow> 'w system \<Rightarrow> 'w system" where
  "eventPollingWorker [] s = s"
| "eventPollingWorker (enqueued # rest) s =
     eventPollingWorker rest (eventPollingWorker_iteration enqueued s)"

text \<open>Calling a queued callback. \<open>pollForEvents\<close> is the only function ever queued.\<close>

fun run_callback :: "'w routine \<Rightarrow> callback \<Rightarrow> 'w system \<Rightarrow> int \<times> 'w system" where
  "run_callback R_ProcessEvents PollForEvents s = pollForEvents R_ProcessEvents s"

text \<open>
  Modelled from the spec: the interpreter's main thread runs a queued callback at a
  point it judges safe. One turn of the main thread takes the oldest queued callback,
  if there is one, and runs it to completion.
\<close>

definition interpreter_step :: "'w routine \<Rightarrow> 'w system \<Rightarrow> 'w system" where
  "interpreter_step R_ProcessEvents s =
     (case pending s of
        [] \<Rightarrow> s
      | cb # rest \<Rightarrow> snd (run_callback R_ProcessEvents cb (s\<lparr>pending := rest\<rparr>)))"

text \<open>
  The step relation of the two threads, as a function of whose turn it is. A worker
  turn also says whether an injection made in that turn gets enqueued.
\<close>

datatype turn = WorkerTurn bool | MainTurn

fun step :: "'w routine \<Rightarrow> turn \<Rightarrow> 'w system \<Rightarrow> 'w system" where
  "step R_ProcessEvents (WorkerTurn enqueued) s = eventPollingWorker_step enqueued s"
| "step R_ProcessEvents MainTurn s = interpreter_step R_ProcessEvents s"

primrec run :: "'w routine \<Rightarrow> turn list \<Rightarrow> 'w system \<Rightarrow> 'w system" where
  "run R_ProcessEvents [] s = s"
| "run R_ProcessEvents (t # ts) s = run R_ProcessEvents ts (step R_ProcessEvents t s)"

fun is_worker_turn :: "turn \<Rightarrow> bool" where
  "is_worker_turn (WorkerTurn enqueued) = True"
| "is_worker_turn MainTurn = False"

text \<open>
  \<open>initialize()\<close> starts the worker thread at the top of its loop; the global signal
  has been constructed, nothing is queued and nothing has been called yet.
\<close>

definition initialize :: "'w host_state \<Rightarrow> 'w system" where
  "initialize h =
     \<lparr>s_pollingSignal = EventPollingSignal_ctor, host = h, pending = [],
      worker_at = W_sleep, trace = []\<rparr>"

text \<open>Counting in a trace: injection calls, and calls of \<open>requestPolling\<close>.\<close>

definition injections :: "event list \<Rightarrow> nat" where
  "injections tr = length (filter (\<lambda>e. e = AddPendingCall PollForEvents) tr)"

definition requests :: "event list \<Rightarrow> nat" where
  "requests tr = length (filter (\<lambda>e. e = RequestPolling) tr)"

text \<open>The values returned by the collects of a trace, in order.\<close>

fun collected :: "event list \<Rightarrow> bool list" where
  "collected [] = []"
| "collected (CollectRequest b # tr) = b # collected tr"
| "collected (e # tr) = collected tr"

text \<open>The worker's own calls in a trace (everything but the callback's \<open>RequestPolling\<close>).\<close>

definition worker_events :: "event list \<Rightarrow> event list" where
  "worker_events tr = filter (\<lambda>e. e \<noteq> RequestPolling) tr"

text \<open>
  What the spec says one iteration of the throttling thread does, given the value
  its collect returned: sleep 250 ms, collect, and inject exactly when the collect
  returned true. \<open>iteration_begun\<close> is the part of an iteration already done when the
  worker stands at a given statement.
\<close>

definition iteration_events :: "bool \<Rightarrow> event list" where
  "iteration_events requested =
     [SleepFor 250, CollectRequest requested] @ (if requested then [AddPendingCall PollForEvents] else [])"

fun iteration_begun :: "worker_pc \<Rightarrow> event list" where
  "iteration_begun W_sleep = []"
| "iteration_begun W_collect = [SleepFor 250]"
| "iteration_begun W_inject = [SleepFor 250, CollectRequest True]"

section \<open>Interleaved calls on the signal, with the mutex\<close>

text \<open>
  Here the two member functions run one statement at a time, and two threads take
  turns in any order. Each thread has a list of calls it still wants to make (any
  mix of the two member functions), and a position: outside the class, or at one of
  the statements of a member function. The shared state holds the two members of
  the class, the boolean (in \<open>signal\<close>) and the mutex (\<open>mutex_\<close> in the source), which
  is either free or held by a thread.
\<close>

datatype thread = WorkerThread | MainThread

datatype call = Call_requestPolling | Call_collectRequest

datatype position =
    Outside
  | Req_lock
  | Req_write
  | Req_unlock
  | Col_lock
  | Col_read
  | Col_clear bool
  | Col_unlock bool

datatype observation = Wrote thread | Got thread bool

record shared =
  signal :: EventPollingSignal
  mutex :: "thread option"
  position_of :: "thread \<Rightarrow> position"
  calls_left :: "thread \<Rightarrow> call list"
  history :: "observation list"

text \<open>
  Modelled from the spec: the constructor of \<open>tthread::lock_guard\<close> on a
  \<open>tthread::mutex\<close> (tinythread.h is not among the sources). The spec's mutex gives
  mutual exclusion: the guard is taken only while no thread holds the mutex. \<open>None\<close>
  says that the mutex is held and the caller has to wait.
\<close>

definition lock_guard_acquire :: "thread \<Rightarrow> shared \<Rightarrow> shared option" where
  "lock_guard_acquire t s = (if mutex s = None then Some (s\<lparr>mutex := Some t\<rparr>) else None)"

text \<open>
  Modelled from the spec: the destructor of \<open>tthread::lock_guard\<close>, run as the member
  function is left. It frees the mutex.
\<close>

definition lock_guard_release :: "shared \<Rightarrow> shared" where
  "lock_guard_release s = s\<lparr>mutex := None\<rparr>"

text \<open>
  One turn of thread \<open>t\<close>. Outside the class it starts its next call, if it has
  one. In \<open>requestPolling\<close>: take the guard; \<open>pollingRequested_ = true\<close>; leave. In
  \<open>collectRequest\<close>: take the guard; \<open>bool requested = pollingRequested_\<close>;
  \<open>pollingRequested_ = false\<close>; \<open>return requested\<close> and leave. A thread that has to
  wait for the mutex stays where it is. The local \<open>requested\<close> is carried in the
  position. The history notes each write of true by \<open>requestPolling\<close> and each value
  returned by \<open>collectRequest\<close>.
\<close>

definition thread_step :: "thread \<Rightarrow> shared \<Rightarrow> shared" where
  "thread_step t s =
     (case position_of s t of
        Outside \<Rightarrow>
          (case calls_left s t of
             [] \<Rightarrow> s
           | Call_requestPolling # cs \<Rightarrow>
               s\<lparr>position_of := (position_of s)(t := Req_lock),
                 calls_left := (calls_left s)(t := cs)\<rparr>
           | Call_collectRequest # cs \<Rightarrow>
               s\<lparr>position_of := (position_of s)(t := Col_lock),
                 calls_left := (calls_left s)(t := cs)\<rparr>)
      | Req_lock \<Rightarrow>
          (case lock_guard_acquire t s of
             None \<Rightarrow> s
           | Some s' \<Rightarrow> s'\<lparr>position_of := (position_of s')(t := Req_write)\<rparr>)
      | Req_write \<Rightarrow>
          s\<lparr>signal := (signal s)\<lparr>pollingRequested := True\<rparr>,
            position_of := (position_of s)(t := Req_unlock),
            history := history s @ [Wrote t]\<rparr>
      | Req_unlock \<Rightarrow>
          (lock_guard_release s)\<lparr>position_of := (position_of s)(t := Outside)\<rparr>
      | Col_lock \<Rightarrow>
          (case lock_guard_acquire t s of
             None \<Rightarrow> s
           | Some s' \<Rightarrow> s'\<lparr>position_of := (position_of s')(t := Col_read)\<rparr>)
      | Col_read \<Rightarrow>
          s\<lparr>position_of := (position_of s)(t := Col_clear (pollingRequested (signal s)))\<rparr>
      | Col_clear requested \<Rightarrow>
          s\<lparr>signal := (signal s)\<lparr>pollingRequested := False\<rparr>,
            position_of := (position_of s)(t := Col_unlock requested)\<rparr>
      | Col_unlock requested \<Rightarrow>
          (lock_guard_release s)
            \<lparr>position_of := (position_of s)(t := Outside),
             history := history s @ [Got t requested]\<rparr>)"

primrec interleave :: "thread list \<Rightarrow> shared \<Rightarrow> shared" where
  "interleave [] s = s"
| "interleave (t # ts) s = interleave ts (thread_step t s)"

text \<open>
  The start: a signal, a free mutex, both threads outside the class with their calls
  still to make, and nothing observed yet.
\<close>

definition start :: "EventPollingSignal \<Rightarrow> (thread \<Rightarrow> call list) \<Rightarrow> shared" where
  "start sig calls =
     \<lparr>signal = sig, mutex = None, position_of = (\<lambda>t. Outside), calls_left = calls,
      history = []\<rparr>"

text \<open>
  The calls the program itself makes: the worker thread only collects and the main
  thread only requests, here \<open>n\<close> times each.
\<close>

fun program_calls :: "nat \<Rightarrow> thread \<Rightarrow> call list" where
  "program_calls n WorkerThread = replicate n Call_collectRequest"
| "program_calls n MainThread = replicate n Call_requestPolling"

text \<open>The next statement of a thread at this position reads or writes the boolean.\<close>

fun touches_flag :: "position \<Rightarrow> bool" where
  "touches_flag Req_write = True"
| "touches_flag Col_read = True"
| "touches_flag (Col_clear requested) = True"
| "touches_flag p = False"

text \<open>The thread at this position is between taking the guard and releasing it.\<close>

fun inside_guard :: "position \<Rightarrow> bool" where
  "inside_guard Outside = False"
| "inside_guard Req_lock = False"
| "inside_guard Col_lock = False"
| "inside_guard p = True"

text \<open>Counting in a history: collects that returned true, and writes of true.\<close>

fun true_collects :: "observation list \<Rightarrow> nat" where
  "true_collects [] = 0"
| "true_collects (Got t True # obs) = Suc (true_collects obs)"
| "true_collects (ob # obs) = true_collects obs"

fun request_writes :: "observation list \<Rightarrow> nat" where
  "request_writes [] = 0"
| "request_writes (Wrote t # obs) = Suc (request_writes obs)"
| "request_writes (ob # obs) = request_writes obs"

text \<open>
  A history read as a sequence of whole calls on a signal, each applied by the
  call-level functions: the signal it ends with, or \<open>None\<close> when some collect in the
  history returned a value that \<open>collectRequest\<close> would not have returned there.
\<close>

fun replay :: "observation list \<Rightarrow> EventPollingSignal \<Rightarrow> EventPollingSignal option" where
  "replay [] sig = Some sig"
| "replay (Wrote t # obs) sig = replay obs (requestPolling sig)"
| "replay (Got t requested # obs) sig =
     (let (r, sig') = collectRequest sig
      in if r = requested then replay obs sig' else None)"

section \<open>Invariants\<close>

text \<open>
  Every true the worker can still turn into an injection is accounted for: the
  injections made, plus one if the flag is set, plus one if the worker has collected
  true and not yet injected, never exceed the requests made plus the initial prime.
\<close>

definition injection_budget :: "'w system \<Rightarrow> bool" where
  "injection_budget s =
     (injections (trace s) + (if pollingRequested (s_pollingSignal s) then 1 else 0)
        + (if worker_at s = W_inject then 1 else 0)
      \<le> requests (trace s) + 1)"

text \<open>The worker's calls so far are whole iterations followed by the one in progress.\<close>

definition in_iterations :: "'w system \<Rightarrow> bool" where
  "in_iterations s =
     (\<exists>bs. worker_events (trace s) =
            concat (map iteration_events bs) @ iteration_begun (worker_at s))"

text \<open>The signal is drained and the worker owes no injection.\<close>

definition drained :: "'w system \<Rightarrow> bool" where
  "drained s = (\<not> pollingRequested (s_pollingSignal s) \<and> worker_at s \<noteq> W_inject)"

text \<open>A thread is inside a guard exactly when it holds the mutex.\<close>

definition exclusion :: "shared \<Rightarrow> bool" where
  "exclusion s = (\<forall>t. inside_guard (position_of s t) = (mutex s = Some t))"

text \<open>
  The trues in flight: the stored flag, and a true that a collect has read into its
  local \<open>requested\<close> and not yet returned. While a collect stands between its read
  and its clear, the flag and the local are the same true, counted once.
\<close>

fun owed :: "bool \<Rightarrow> position \<Rightarrow> nat" where
  "owed stored (Col_clear requested) = (if requested then 1 else 0)"
| "owed stored (Col_unlock requested) =
     (if requested then 1 else 0) + (if stored then 1 else 0)"
| "owed stored p = (if stored then 1 else 0)"

definition tokens :: "shared \<Rightarrow> nat" where
  "tokens s =
     (case mutex s of
        None \<Rightarrow> (if pollingRequested (signal s) then 1 else 0)
      | Some t \<Rightarrow> owed (pollingRequested (signal s)) (position_of s t))"

definition accounted :: "bool \<Rightarrow> shared \<Rightarrow> bool" where
  "accounted initially s =
     (true_collects (history s) + tokens s
      \<le> request_writes (history s) + (if initially then 1 else 0))"

text \<open>
  The stored signal agrees with the replayed history: it is the replayed signal,
  except that a collect which has cleared the flag and not yet returned is one
  call ahead of the history.
\<close>

fun agrees :: "EventPollingSignal \<Rightarrow> EventPollingSignal \<Rightarrow> position \<Rightarrow> bool" where
  "agrees a sig (Col_clear requested) = (sig = a \<and> requested = pollingRequested a)"
| "agrees a sig (Col_unlock requested) =
     (sig = snd (collectRequest a) \<and> requested = fst (collectRequest a))"
| "agrees a sig p = (sig = a)"

definition linearized :: "EventPollingSignal \<Rightarrow> shared \<Rightarrow> bool" where
  "linearized sig0 s =
     (\<exists>a. replay (history s) sig0 = Some a \<and>
          (case mutex s of
             None \<Rightarrow> signal s = a
           | Some t \<Rightarrow> agrees a (signal s) (position_of s t)))"

section \<open>Properties of the polling signal\<close>

lemma collectRequest_eq:
  "collectRequest sig = (pollingRequested sig, sig\<lparr>pollingRequested := False\<rparr>)"
  by (simp add: collectRequest_def)

lemma collect_times_drained:
  "collect_times n (sig\<lparr>pollingRequested := False\<rparr>) =
     (replicate n False, sig\<lparr>pollingRequested := False\<rparr>)"
  by (induction n) (simp_all add: collectRequest_eq)

lemma collect_times_Suc:
  "collect_times (Suc n) sig =
     (pollingRequested sig # replicate n False, sig\<lparr>pollingRequested := False\<rparr>)"
  by (simp add: collectRequest_eq collect_times_drained)

lemma request_times_Suc: "request_times (Suc n) sig = requestPolling sig"
  by (induction n arbitrary: sig) (simp_all add: requestPolling_def)

text \<open>
  C1. \<open>collectRequest\<close> reads the stored boolean, resets it to false and returns the
  value read: from every prior state of the signal, the flag stored after the call
  is false and the value returned is the flag's value immediately before the call.
\<close>

theorem C1_collectRequest_test_and_clear:
  "pollingRequested (snd (collectRequest sig)) = False \<and>
   fst (collectRequest sig) = pollingRequested sig"
  by (simp add: collectRequest_def)

theorem C1_collectRequest_witness:
  "pollingRequested (snd (collectRequest \<lparr>pollingRequested = True\<rparr>)) = False \<and>
   fst (collectRequest \<lparr>pollingRequested = True\<rparr>) = True"
  using C1_collectRequest_test_and_clear [of "\<lparr>pollingRequested = True\<rparr>"] by simp

text \<open>
  C6. \<open>requestPolling\<close> sets the stored flag to true from every prior state, and it
  is idempotent: any positive number of consecutive calls leaves exactly the state
  that one call leaves, and so the same result of the next \<open>collectRequest\<close>.
\<close>

theorem C6_requestPolling_idempotent:
  "pollingRequested (requestPolling sig) = True \<and>
   request_times (Suc n) sig = requestPolling sig \<and>
   collectRequest (request_times (Suc n) sig) = collectRequest (requestPolling sig)"
  by (simp only: request_times_Suc) (simp add: requestPolling_def)

theorem C6_requestPolling_witness:
  "request_times 5 \<lparr>pollingRequested = False\<rparr> = requestPolling \<lparr>pollingRequested = False\<rparr> \<and>
   request_times 5 \<lparr>pollingRequested = False\<rparr> = \<lparr>pollingRequested = True\<rparr>"
  using C6_requestPolling_idempotent [of "\<lparr>pollingRequested = False\<rparr>" 4]
  by (simp add: numeral_eq_Suc requestPolling_def)

text \<open>
  C7. Burst collapse: from any state, after three calls of \<open>requestPolling\<close> in a
  row, the next \<open>collectRequest\<close> returns true and every \<open>collectRequest\<close> after it
  returns false; in particular exactly one of the following collects returns true
  and the one right after it returns false.
\<close>

theorem C7_burst_collapse:
  "fst (collect_times (Suc (Suc n))
          (requestPolling (requestPolling (requestPolling sig)))) =
     True # False # replicate n False"
  by (simp only: collect_times_Suc fst_conv) (simp add: requestPolling_def)

theorem C7_burst_collapse_witness:
  "fst (collect_times 2
          (requestPolling (requestPolling (requestPolling \<lparr>pollingRequested = False\<rparr>)))) =
     [True, False]"
  using C7_burst_collapse [of 0 "\<lparr>pollingRequested = False\<rparr>"]
  by (simp add: numeral_eq_Suc)

section \<open>Properties of the poll callback\<close>

lemma pollForEvents_eq:
  "pollForEvents R_ProcessEvents s =
     (0, s\<lparr>host := (snd (R_ProcessEvents ((host s)\<lparr>interrupts_suspended := True\<rparr>)))
                      \<lparr>interrupts_suspended := interrupts_suspended (host s)\<rparr>,
           s_pollingSignal := requestPolling (s_pollingSignal s),
           trace := trace s @ [RequestPolling]\<rparr>)"
  by (simp add: pollForEvents_def scope_acquire_def scope_release_def R_ToplevelExec_def
      processEvents_def split: prod.splits outcome.splits)

lemma run_callback_eq: "run_callback R_ProcessEvents cb s = pollForEvents R_ProcessEvents s"
  by (cases cb) simp

text \<open>
  C2. Every invocation of \<open>pollForEvents\<close> re-arms the signal and reports success:
  whatever the host's event processing does, also when it leaves by a non-local
  jump, the callback returns, the status it returns is 0, and the signal's flag is
  true afterwards.
\<close>

theorem C2_pollForEvents_rearms:
  "fst (pollForEvents R_ProcessEvents s) = 0 \<and>
   pollingRequested (s_pollingSignal (snd (pollForEvents R_ProcessEvents s))) = True"
  by (simp add: pollForEvents_eq requestPolling_def)

theorem C2_pollForEvents_witness:
  "fst (R_ToplevelExec (processEvents (\<lambda>h. (Jumped, h)))
          \<lparr>interrupts_suspended = True, world = ()\<rparr>) = False \<and>
   fst (pollForEvents (\<lambda>h. (Jumped, h))
          \<lparr>s_pollingSignal = \<lparr>pollingRequested = False\<rparr>,
           host = \<lparr>interrupts_suspended = False, world = ()\<rparr>,
           pending = [], worker_at = W_sleep, trace = []\<rparr>) = 0 \<and>
   pollingRequested (s_pollingSignal (snd (pollForEvents (\<lambda>h. (Jumped, h))
          \<lparr>s_pollingSignal = \<lparr>pollingRequested = False\<rparr>,
           host = \<lparr>interrupts_suspended = False, world = ()\<rparr>,
           pending = [], worker_at = W_sleep, trace = []\<rparr>))) = True"
  using C2_pollForEvents_rearms [of "\<lambda>h. (Jumped, h)"
      "\<lparr>s_pollingSignal = \<lparr>pollingRequested = False\<rparr>,
        host = \<lparr>interrupts_suspended = False, world = ()\<rparr>,
        pending = [], worker_at = W_sleep, trace = []\<rparr>"]
  by (simp add: R_ToplevelExec_def processEvents_def)

text \<open>
  C8. Interrupt suspension is scoped: \<open>pollForEvents\<close> takes the suspension scope on
  entry, so the host's event processing runs with interrupts suspended, and when
  \<open>pollForEvents\<close> has returned the suspension state is again what it was before the
  call, whatever the event processing did to it and also when it jumped.
\<close>

theorem C8_interrupt_suspension_scoped:
  "interrupts_suspended (host (snd (pollForEvents R_ProcessEvents s))) =
     interrupts_suspended (host s) \<and>
   host (snd (pollForEvents R_ProcessEvents s)) =
     (snd (R_ProcessEvents ((host s)\<lparr>interrupts_suspended := True\<rparr>)))
       \<lparr>interrupts_suspended := interrupts_suspended (host s)\<rparr>"
  by (simp add: pollForEvents_eq)

theorem C8_interrupt_suspension_witness:
  "host (snd (pollForEvents
       (\<lambda>h. (Jumped, h\<lparr>interrupts_suspended := \<not> interrupts_suspended h,
                         world := Suc (world h)\<rparr>))
       \<lparr>s_pollingSignal = \<lparr>pollingRequested = False\<rparr>,
        host = \<lparr>interrupts_suspended = False, world = 0\<rparr>,
        pending = [], worker_at = W_sleep, trace = []\<rparr>)) =
     \<lparr>interrupts_suspended = False, world = Suc 0\<rparr>"
  using C8_interrupt_suspension_scoped
    [of "\<lambda>h. (Jumped, h\<lparr>interrupts_suspended := \<not> interrupts_suspended h,
                         world := Suc (world h)\<rparr>)"
        "\<lparr>s_pollingSignal = \<lparr>pollingRequested = False\<rparr>,
          host = \<lparr>interrupts_suspended = False, world = 0\<rparr>,
          pending = [], worker_at = W_sleep, trace = []\<rparr>"]
  by simp

section \<open>Properties of the throttling thread and of the two threads together\<close>

lemma worker_step_sleep:
  "worker_at s = W_sleep \<Longrightarrow>
   eventPollingWorker_step enqueued s =
     s\<lparr>worker_at := W_collect, trace := trace s @ [SleepFor 250]\<rparr>"
  by (simp add: eventPollingWorker_step_def)

lemma worker_step_collect:
  "worker_at s = W_collect \<Longrightarrow>
   eventPollingWorker_step enqueued s =
     s\<lparr>s_pollingSignal := (s_pollingSignal s)\<lparr>pollingRequested := False\<rparr>,
       trace := trace s @ [CollectRequest (pollingRequested (s_pollingSignal s))],
       worker_at := (if pollingRequested (s_pollingSignal s) then W_inject else W_sleep)\<rparr>"
  by (simp add: eventPollingWorker_step_def collectRequest_eq)

lemma worker_step_inject:
  "worker_at s = W_inject \<Longrightarrow>
   eventPollingWorker_step enqueued s =
     s\<lparr>trace := trace s @ [AddPendingCall PollForEvents],
       pending := (if enqueued then pending s @ [PollForEvents] else pending s),
       worker_at := W_sleep\<rparr>"
  by (simp add: eventPollingWorker_step_def Py_AddPendingCall_def)

lemma interpreter_step_idle: "pending s = [] \<Longrightarrow> interpreter_step R_ProcessEvents s = s"
  by (simp add: interpreter_step_def)

lemma interpreter_step_run:
  "pending s = cb # rest \<Longrightarrow>
   interpreter_step R_ProcessEvents s =
     s\<lparr>pending := rest,
       host := (snd (R_ProcessEvents ((host s)\<lparr>interrupts_suspended := True\<rparr>)))
                  \<lparr>interrupts_suspended := interrupts_suspended (host s)\<rparr>,
       s_pollingSignal := requestPolling (s_pollingSignal s),
       trace := trace s @ [RequestPolling]\<rparr>"
  by (simp add: interpreter_step_def run_callback_eq pollForEvents_eq)

lemma iteration_eq:
  "worker_at s = W_sleep \<Longrightarrow>
   eventPollingWorker_iteration enqueued s =
     s\<lparr>s_pollingSignal := (s_pollingSignal s)\<lparr>pollingRequested := False\<rparr>,
       pending := (if pollingRequested (s_pollingSignal s) \<and> enqueued
                   then pending s @ [PollForEvents] else pending s),
       trace := trace s @ iteration_events (pollingRequested (s_pollingSignal s)),
       worker_at := W_sleep\<rparr>"
  by (simp add: eventPollingWorker_iteration_def worker_step_sleep worker_step_collect
      worker_step_inject iteration_events_def Let_def)

lemma collected_app: "collected (tr @ tr') = collected tr @ collected tr'"
  by (induction tr rule: collected.induct) simp_all

lemma injections_app: "injections (tr @ tr') = injections tr + injections tr'"
  by (simp add: injections_def)

subsection \<open>Injections never outrun requests\<close>

lemma injection_budget_worker:
  "injection_budget s \<Longrightarrow> injection_budget (eventPollingWorker_step enqueued s)"
  by (cases "worker_at s")
     (auto simp: injection_budget_def worker_step_sleep worker_step_collect worker_step_inject
        injections_def requests_def)

lemma injection_budget_main:
  "injection_budget s \<Longrightarrow> injection_budget (interpreter_step R_ProcessEvents s)"
  by (cases "pending s")
     (auto simp: injection_budget_def interpreter_step_idle interpreter_step_run
        requestPolling_def injections_def requests_def)

lemma injection_budget_run:
  "injection_budget s \<Longrightarrow> injection_budget (run R_ProcessEvents sched s)"
proof (induction sched arbitrary: s)
  case Nil
  then show ?case by simp
next
  case (Cons t sched)
  then show ?case
    by (cases t) (simp_all add: injection_budget_worker injection_budget_main)
qed

lemma injection_budget_initialize: "injection_budget (initialize h)"
  by (simp add: injection_budget_def initialize_def EventPollingSignal_ctor_def
      injections_def requests_def)

text \<open>
  C9. Bounded injection count: in every finite execution of the two threads from the
  initial state, the number of injection calls made so far is at most the number of
  \<open>requestPolling\<close> calls made so far plus one, the initial prime.
\<close>

theorem C9_injections_bounded:
  "injections (trace (run R_ProcessEvents sched (initialize h)))
     \<le> requests (trace (run R_ProcessEvents sched (initialize h))) + 1"
  using injection_budget_run [OF injection_budget_initialize, of R_ProcessEvents sched h]
  by (simp add: injection_budget_def split: if_splits)

theorem C9_injections_bounded_witness:
  "injections (trace (run (\<lambda>h. (Returned, h))
       [WorkerTurn True, WorkerTurn True, WorkerTurn True, MainTurn,
        WorkerTurn True, WorkerTurn True, WorkerTurn False]
       (initialize \<lparr>interrupts_suspended = False, world = ()\<rparr>))) = 2 \<and>
   requests (trace (run (\<lambda>h. (Returned, h))
       [WorkerTurn True, WorkerTurn True, WorkerTurn True, MainTurn,
        WorkerTurn True, WorkerTurn True, WorkerTurn False]
       (initialize \<lparr>interrupts_suspended = False, world = ()\<rparr>))) = 1"
  using C9_injections_bounded [of "\<lambda>h. (Returned, h)"
       "[WorkerTurn True, WorkerTurn True, WorkerTurn True, MainTurn,
        WorkerTurn True, WorkerTurn True, WorkerTurn False]"
       "\<lparr>interrupts_suspended = False, world = ()\<rparr>"]
  by (simp add: initialize_def EventPollingSignal_ctor_def worker_step_sleep
      worker_step_collect worker_step_inject interpreter_step_run requestPolling_def
      injections_def requests_def)

subsection \<open>The worker's calls come in iterations\<close>

lemma in_iterations_worker:
  assumes "in_iterations s"
  shows "in_iterations (eventPollingWorker_step enqueued s)"
proof -
  from assms obtain bs where
    bs: "worker_events (trace s) = concat (map iteration_events bs) @ iteration_begun (worker_at s)"
    by (auto simp: in_iterations_def)
  show ?thesis
  proof (cases "worker_at s")
    case W_sleep
    with bs show ?thesis
      by (auto simp: in_iterations_def worker_step_sleep worker_events_def intro!: exI[of _ bs])
  next
    case W_collect
    show ?thesis
    proof (cases "pollingRequested (s_pollingSignal s)")
      case True
      with bs W_collect show ?thesis
        by (auto simp: in_iterations_def worker_step_collect worker_events_def
            intro!: exI[of _ bs])
    next
      case False
      with bs W_collect show ?thesis
        by (auto simp: in_iterations_def worker_step_collect worker_events_def
            iteration_events_def intro!: exI[of _ "bs @ [False]"])
    qed
  next
    case W_inject
    with bs show ?thesis
      by (auto simp: in_iterations_def worker_step_inject worker_events_def
          iteration_events_def intro!: exI[of _ "bs @ [True]"])
  qed
qed

lemma in_iterations_main:
  "in_iterations s \<Longrightarrow> in_iterations (interpreter_step R_ProcessEvents s)"
  by (cases "pending s")
     (auto simp: in_iterations_def interpreter_step_idle interpreter_step_run worker_events_def)

lemma in_iterations_run:
  "in_iterations s \<Longrightarrow> in_iterations (run R_ProcessEvents sched s)"
proof (induction sched arbitrary: s)
  case Nil
  then show ?case by simp
next
  case (Cons t sched)
  then show ?case
    by (cases t) (simp_all add: in_iterations_worker in_iterations_main)
qed

lemma in_iterations_initialize: "in_iterations (initialize h)"
  by (auto simp: in_iterations_def initialize_def worker_events_def intro!: exI[of _ "[]"])

text \<open>
  C3. On every iteration of its loop the throttling thread first sleeps for 250 ms,
  then calls \<open>collectRequest\<close>, and calls \<open>Py_AddPendingCall\<close> with \<open>pollForEvents\<close> if
  and only if that collect returned true, and does nothing else. However the two
  threads interleave, the worker's calls so far are a sequence of such iterations
  followed by the part done of the iteration in progress; and an iteration that
  runs undisturbed changes the state by exactly these calls.
\<close>

theorem C3_worker_iterations:
  "(\<exists>bs. worker_events (trace (run R_ProcessEvents sched (initialize h))) =
          concat (map iteration_events bs) @
          iteration_begun (worker_at (run R_ProcessEvents sched (initialize h)))) \<and>
   (worker_at s = W_sleep \<longrightarrow>
    eventPollingWorker_iteration enqueued s =
      s\<lparr>s_pollingSignal := (s_pollingSignal s)\<lparr>pollingRequested := False\<rparr>,
        pending := (if pollingRequested (s_pollingSignal s) \<and> enqueued
                    then pending s @ [PollForEvents] else pending s),
        trace := trace s @ iteration_events (pollingRequested (s_pollingSignal s))\<rparr>)"
proof
  show "\<exists>bs. worker_events (trace (run R_ProcessEvents sched (initialize h))) =
          concat (map iteration_events bs) @
          iteration_begun (worker_at (run R_ProcessEvents sched (initialize h)))"
    using in_iterations_run [OF in_iterations_initialize, of R_ProcessEvents sched h]
    by (simp add: in_iterations_def)
next
  show "worker_at s = W_sleep \<longrightarrow>
    eventPollingWorker_iteration enqueued s =
      s\<lparr>s_pollingSignal := (s_pollingSignal s)\<lparr>pollingRequested := False\<rparr>,
        pending := (if pollingRequested (s_pollingSignal s) \<and> enqueued
                    then pending s @ [PollForEvents] else pending s),
        trace := trace s @ iteration_events (pollingRequested (s_pollingSignal s))\<rparr>"
    by (simp add: iteration_eq)
qed

theorem C3_worker_iterations_witness:
  "worker_events (trace (run (\<lambda>h. (Returned, h))
       [WorkerTurn True, WorkerTurn True, WorkerTurn True, MainTurn,
        WorkerTurn True, WorkerTurn True, WorkerTurn False, WorkerTurn True]
       (initialize \<lparr>interrupts_suspended = False, world = ()\<rparr>))) =
     concat (map iteration_events [True, True]) @ iteration_begun W_collect \<and>
   worker_at (initialize \<lparr>interrupts_suspended = False, world = ()\<rparr>) = W_sleep \<and>
   eventPollingWorker_iteration True (initialize \<lparr>interrupts_suspended = False, world = ()\<rparr>) =
     \<lparr>s_pollingSignal = \<lparr>pollingRequested = False\<rparr>,
      host = \<lparr>interrupts_suspended = False, world = ()\<rparr>,
      pending = [PollForEvents], worker_at = W_sleep,
      trace = [SleepFor 250, CollectRequest True, AddPendingCall PollForEvents]\<rparr>"
  using C3_worker_iterations [of "\<lambda>h. (Returned, h)"
      "[WorkerTurn True, WorkerTurn True, WorkerTurn True, MainTurn,
        WorkerTurn True, WorkerTurn True, WorkerTurn False, WorkerTurn True]"
      "\<lparr>interrupts_suspended = False, world = ()\<rparr>"
      "initialize \<lparr>interrupts_suspended = False, world = ()\<rparr>" True]
  by (simp add: initialize_def EventPollingSignal_ctor_def iteration_events_def
      worker_step_sleep worker_step_collect worker_step_inject interpreter_step_run
      requestPolling_def worker_events_def)

subsection \<open>Quiescence\<close>

lemma drained_worker_step:
  assumes "drained s"
  shows "drained (eventPollingWorker_step enqueued s) \<and>
         (\<exists>e. trace (eventPollingWorker_step enqueued s) = trace s @ [e] \<and>
              injections [e] = 0 \<and> True \<notin> set (collected [e]))"
  using assms
  by (cases "worker_at s")
     (simp_all add: drained_def worker_step_sleep worker_step_collect injections_def)

lemma drained_run:
  assumes "drained s" and "list_all is_worker_turn sched"
  shows "drained (run R_ProcessEvents sched s) \<and>
         (\<exists>tr. trace (run R_ProcessEvents sched s) = trace s @ tr \<and>
               injections tr = 0 \<and> True \<notin> set (collected tr))"
  using assms
proof (induction sched arbitrary: s)
  case Nil
  then show ?case by (simp add: injections_def)
next
  case (Cons t sched)
  from Cons.prems(2) obtain enqueued where
    t: "t = WorkerTurn enqueued" and rest: "list_all is_worker_turn sched"
    by (cases t) simp_all
  let ?s1 = "eventPollingWorker_step enqueued s"
  from drained_worker_step [OF Cons.prems(1), of enqueued] obtain e where
    d1: "drained ?s1" and e: "trace ?s1 = trace s @ [e]" "injections [e] = 0"
      "True \<notin> set (collected [e])"
    by blast
  from Cons.IH [OF d1 rest] obtain tr where
    d2: "drained (run R_ProcessEvents sched ?s1)" and
    tr: "trace (run R_ProcessEvents sched ?s1) = trace ?s1 @ tr" "injections tr = 0"
      "True \<notin> set (collected tr)"
    by blast
  have "trace (run R_ProcessEvents (t # sched) s) = trace s @ (e # tr)"
    using t e tr by simp
  moreover have "injections (e # tr) = 0"
    using e(2) tr(2) injections_app [of "[e]" tr] by simp
  moreover have "True \<notin> set (collected (e # tr))"
    using e(3) tr(3) collected_app [of "[e]" tr] by simp
  ultimately show ?case using d2 t by auto
qed

text \<open>
  C4. Self-quiescence: once the poll callback is no longer invoked, so that only the
  worker takes turns, and the worker has gone through one iteration of its loop (the
  collect that drains the signal, with the injection that belongs to it), the flag is
  false in every later state, every later collect returns false, and the worker makes
  no further injection call.
\<close>

theorem C4_self_quiescence:
  assumes "worker_at s = W_sleep" and "list_all is_worker_turn sched"
  shows "let s1 = eventPollingWorker_iteration enqueued s;
             s2 = run R_ProcessEvents sched s1
         in \<not> pollingRequested (s_pollingSignal s1) \<and>
            \<not> pollingRequested (s_pollingSignal s2) \<and>
            True \<notin> set (collected (drop (length (trace s1)) (trace s2))) \<and>
            injections (trace s2) = injections (trace s1)"
proof -
  let ?s1 = "eventPollingWorker_iteration enqueued s"
  have d: "drained ?s1"
    using assms(1) by (simp add: iteration_eq drained_def)
  from drained_run [OF d assms(2), of R_ProcessEvents] obtain tr where
    "drained (run R_ProcessEvents sched ?s1)" and
    "trace (run R_ProcessEvents sched ?s1) = trace ?s1 @ tr" and
    "injections tr = 0" and "True \<notin> set (collected tr)"
    by blast
  with d show ?thesis
    by (simp add: Let_def drained_def injections_app)
qed

theorem C4_self_quiescence_witness:
  "worker_at (initialize \<lparr>interrupts_suspended = False, world = ()\<rparr>) = W_sleep \<and>
   list_all is_worker_turn [WorkerTurn True, WorkerTurn True, WorkerTurn True, WorkerTurn True] \<and>
   (let s1 = eventPollingWorker_iteration True
               (initialize \<lparr>interrupts_suspended = False, world = ()\<rparr>);
        s2 = run (\<lambda>h. (Returned, h))
               [WorkerTurn True, WorkerTurn True, WorkerTurn True, WorkerTurn True] s1
    in \<not> pollingRequested (s_pollingSignal s1) \<and>
       \<not> pollingRequested (s_pollingSignal s2) \<and>
       True \<notin> set (collected (drop (length (trace s1)) (trace s2))) \<and>
       injections (trace s2) = injections (trace s1) \<and>
       trace s2 =
         [SleepFor 250, CollectRequest True, AddPendingCall PollForEvents,
          SleepFor 250, CollectRequest False, SleepFor 250, CollectRequest False])"
proof -
  let ?s = "initialize \<lparr>interrupts_suspended = False, world = ()\<rparr>"
  let ?sched = "[WorkerTurn True, WorkerTurn True, WorkerTurn True, WorkerTurn True]"
  have h1: "worker_at ?s = W_sleep"
    by (simp add: initialize_def)
  have h2: "list_all is_worker_turn ?sched"
    by simp
  have tr: "trace (run (\<lambda>h. (Returned, h)) ?sched (eventPollingWorker_iteration True ?s)) =
         [SleepFor 250, CollectRequest True, AddPendingCall PollForEvents,
          SleepFor 250, CollectRequest False, SleepFor 250, CollectRequest False]"
    by (simp add: initialize_def EventPollingSignal_ctor_def iteration_eq iteration_events_def
      worker_step_sleep worker_step_collect)
  from C4_self_quiescence [OF h1 h2, of True "\<lambda>h. (Returned, h)"] h1 h2 tr
  show ?thesis
    by (simp only: Let_def) blast
qed

subsection \<open>The initial prime\<close>

lemma eventPollingWorker_drained:
  "worker_at s = W_sleep \<Longrightarrow> \<not> pollingRequested (s_pollingSignal s) \<Longrightarrow>
   collected (trace (eventPollingWorker oks s)) =
     collected (trace s) @ replicate (length oks) False"
proof (induction oks arbitrary: s)
  case Nil
  then show ?case by simp
next
  case (Cons enqueued oks)
  let ?s1 = "eventPollingWorker_iteration enqueued s"
  have s1: "worker_at ?s1 = W_sleep" "\<not> pollingRequested (s_pollingSignal ?s1)"
    "collected (trace ?s1) = collected (trace s) @ [False]"
    using Cons.prems by (simp_all add: iteration_eq iteration_events_def collected_app)
  from Cons.IH [OF s1(1) s1(2)] s1(3) show ?case
    by (simp add: replicate_app_Cons_same)
qed

text \<open>
  C5. Initial prime: the flag is true immediately after construction, so with no
  call of \<open>requestPolling\<close> the first \<open>collectRequest\<close> on the freshly constructed
  signal returns true and every later one returns false. The same holds tick by
  tick: when the worker runs alone from the initial state, its first iteration
  collects true and every later iteration collects false.
\<close>

theorem C5_initial_prime:
  "pollingRequested EventPollingSignal_ctor = True \<and>
   fst (collect_times (Suc n) EventPollingSignal_ctor) = True # replicate n False \<and>
   collected (trace (eventPollingWorker (enqueued # oks) (initialize h))) =
     True # replicate (length oks) False"
proof -
  let ?s1 = "eventPollingWorker_iteration enqueued (initialize h)"
  have "worker_at (initialize h) = W_sleep"
    by (simp add: initialize_def)
  then have s1: "worker_at ?s1 = W_sleep" "\<not> pollingRequested (s_pollingSignal ?s1)"
    "collected (trace ?s1) = [True]"
    by (simp_all add: iteration_eq iteration_events_def initialize_def
        EventPollingSignal_ctor_def)
  have "collected (trace (eventPollingWorker oks ?s1)) = [True] @ replicate (length oks) False"
    using eventPollingWorker_drained [OF s1(1) s1(2), of oks] s1(3) by simp
  moreover have "fst (collect_times (Suc n) EventPollingSignal_ctor) = True # replicate n False"
    by (simp only: collect_times_Suc fst_conv) (simp add: EventPollingSignal_ctor_def)
  ultimately show ?thesis
    by (simp add: EventPollingSignal_ctor_def)
qed

theorem C5_initial_prime_witness:
  "fst (collect_times 4 EventPollingSignal_ctor) = [True, False, False, False] \<and>
   collected (trace (eventPollingWorker [True, True, True]
      (initialize \<lparr>interrupts_suspended = False, world = ()\<rparr>))) = [True, False, False]"
  using C5_initial_prime [of 3 True "[True, True]" "\<lparr>interrupts_suspended = False, world = ()\<rparr>"]
  by (simp add: numeral_eq_Suc)

section \<open>Properties of interleaved calls\<close>

lemma step_Outside:
  "position_of s t = Outside \<Longrightarrow>
   thread_step t s =
     (case calls_left s t of
        [] \<Rightarrow> s
      | c # cs \<Rightarrow>
          s\<lparr>position_of := (position_of s)
                 (t := (case c of Call_requestPolling \<Rightarrow> Req_lock
                        | Call_collectRequest \<Rightarrow> Col_lock)),
            calls_left := (calls_left s)(t := cs)\<rparr>)"
  by (simp add: thread_step_def split: list.splits call.splits)

lemma step_Req_lock:
  "position_of s t = Req_lock \<Longrightarrow>
   thread_step t s =
     (if mutex s = None
      then s\<lparr>mutex := Some t, position_of := (position_of s)(t := Req_write)\<rparr> else s)"
  by (simp add: thread_step_def lock_guard_acquire_def)

lemma step_Col_lock:
  "position_of s t = Col_lock \<Longrightarrow>
   thread_step t s =
     (if mutex s = None
      then s\<lparr>mutex := Some t, position_of := (position_of s)(t := Col_read)\<rparr> else s)"
  by (simp add: thread_step_def lock_guard_acquire_def)

lemma step_Req_write:
  "position_of s t = Req_write \<Longrightarrow>
   thread_step t s =
     s\<lparr>signal := (signal s)\<lparr>pollingRequested := True\<rparr>,
       position_of := (position_of s)(t := Req_unlock),
       history := history s @ [Wrote t]\<rparr>"
  by (simp add: thread_step_def)

lemma step_Req_unlock:
  "position_of s t = Req_unlock \<Longrightarrow>
   thread_step t s = s\<lparr>mutex := None, position_of := (position_of s)(t := Outside)\<rparr>"
  by (simp add: thread_step_def lock_guard_release_def)

lemma step_Col_read:
  "position_of s t = Col_read \<Longrightarrow>
   thread_step t s =
     s\<lparr>position_of := (position_of s)(t := Col_clear (pollingRequested (signal s)))\<rparr>"
  by (simp add: thread_step_def)

lemma step_Col_clear:
  "position_of s t = Col_clear requested \<Longrightarrow>
   thread_step t s =
     s\<lparr>signal := (signal s)\<lparr>pollingRequested := False\<rparr>,
       position_of := (position_of s)(t := Col_unlock requested)\<rparr>"
  by (simp add: thread_step_def)

lemma step_Col_unlock:
  "position_of s t = Col_unlock requested \<Longrightarrow>
   thread_step t s =
     s\<lparr>mutex := None, position_of := (position_of s)(t := Outside),
       history := history s @ [Got t requested]\<rparr>"
  by (simp add: thread_step_def lock_guard_release_def)

lemmas step_at = step_Outside step_Req_lock step_Col_lock step_Req_write step_Req_unlock
  step_Col_read step_Col_clear step_Col_unlock

subsection \<open>Mutual exclusion\<close>

lemma exclusion_step:
  assumes "exclusion s"
  shows "exclusion (thread_step t s)"
proof -
  have e: "\<And>u. inside_guard (position_of s u) = (mutex s = Some u)"
    using assms by (simp add: exclusion_def)
  show ?thesis
  proof (cases "position_of s t")
    case Outside
    then show ?thesis using e [of t] e
      by (cases "calls_left s t") (auto simp: exclusion_def step_at split: call.splits)
  next
    case Req_lock
    then show ?thesis using e [of t] e by (auto simp: exclusion_def step_at)
  next
    case Req_write
    then show ?thesis using e [of t] e by (auto simp: exclusion_def step_at)
  next
    case Req_unlock
    then show ?thesis using e [of t] e by (auto simp: exclusion_def step_at)
  next
    case Col_lock
    then show ?thesis using e [of t] e by (auto simp: exclusion_def step_at)
  next
    case Col_read
    then show ?thesis using e [of t] e by (auto simp: exclusion_def step_at)
  next
    case (Col_clear requested)
    then show ?thesis using e [of t] e by (auto simp: exclusion_def step_at)
  next
    case (Col_unlock requested)
    then show ?thesis using e [of t] e by (auto simp: exclusion_def step_at)
  qed
qed

lemma holder_inside: "exclusion s \<Longrightarrow> inside_guard (position_of s t) \<Longrightarrow> mutex s = Some t"
  by (simp add: exclusion_def)

lemma holder_other:
  "exclusion s \<Longrightarrow> \<not> inside_guard (position_of s t) \<Longrightarrow> mutex s = Some u \<Longrightarrow> u \<noteq> t"
  by (auto simp: exclusion_def)

lemma touches_inside: "touches_flag p \<Longrightarrow> inside_guard p"
  by (cases p) simp_all

subsection \<open>No true is collected twice\<close>

lemma true_collects_app:
  "true_collects (obs @ obs') = true_collects obs + true_collects obs'"
  by (induction obs rule: true_collects.induct) simp_all

lemma request_writes_app:
  "request_writes (obs @ obs') = request_writes obs + request_writes obs'"
  by (induction obs rule: request_writes.induct) simp_all

lemma true_collects_Got: "true_collects [Got t requested] = (if requested then 1 else 0)"
  by (cases requested) simp_all

lemma tokens_outside:
  assumes "exclusion s" and "\<not> inside_guard (position_of s t)"
  shows "tokens (s\<lparr>position_of := (position_of s)(t := p), calls_left := cl\<rparr>) = tokens s"
proof (cases "mutex s")
  case None
  then show ?thesis by (simp add: tokens_def)
next
  case (Some u)
  with assms have "u \<noteq> t" by (simp add: holder_other)
  with Some show ?thesis by (simp add: tokens_def)
qed

lemma accounted_step:
  assumes e: "exclusion s" and c: "accounted initially s"
  shows "accounted initially (thread_step t s)"
proof (cases "position_of s t")
  case Outside
  then have "\<not> inside_guard (position_of s t)" by simp
  note tokens_outside [OF e this]
  with c Outside show ?thesis
    by (cases "calls_left s t") (simp_all add: accounted_def step_at)
next
  case Req_lock
  show ?thesis
  proof (cases "mutex s")
    case None
    with c Req_lock show ?thesis by (simp add: accounted_def step_at tokens_def)
  next
    case (Some u)
    with c Req_lock show ?thesis by (simp add: step_at)
  qed
next
  case Col_lock
  show ?thesis
  proof (cases "mutex s")
    case None
    with c Col_lock show ?thesis by (simp add: accounted_def step_at tokens_def)
  next
    case (Some u)
    with c Col_lock show ?thesis by (simp add: step_at)
  qed
next
  case Req_write
  then have "mutex s = Some t" using e by (simp add: holder_inside)
  with c Req_write show ?thesis
    by (simp add: accounted_def tokens_def step_at request_writes_app true_collects_app)
next
  case Req_unlock
  then have "mutex s = Some t" using e by (simp add: holder_inside)
  with c Req_unlock show ?thesis
    by (simp add: accounted_def tokens_def step_at)
next
  case Col_read
  then have "mutex s = Some t" using e by (simp add: holder_inside)
  with c Col_read show ?thesis
    by (simp add: accounted_def tokens_def step_at)
next
  case (Col_clear requested)
  then have "mutex s = Some t" using e by (simp add: holder_inside)
  with c Col_clear show ?thesis
    by (simp add: accounted_def tokens_def step_at)
next
  case (Col_unlock requested)
  then have "mutex s = Some t" using e by (simp add: holder_inside)
  with c Col_unlock show ?thesis
    by (simp add: accounted_def tokens_def step_at true_collects_app true_collects_Got
        request_writes_app)
qed

lemma invariants_interleave:
  "exclusion s \<Longrightarrow> accounted initially s \<Longrightarrow>
   exclusion (interleave sched s) \<and> accounted initially (interleave sched s)"
  by (induction sched arbitrary: s) (simp_all add: exclusion_step accounted_step)

lemma invariants_start:
  "exclusion (start sig calls) \<and> accounted (pollingRequested sig) (start sig calls)"
  by (simp add: exclusion_def accounted_def tokens_def start_def)

text \<open>
  C10. Test-and-clear under concurrency, with the initial true counted: however the
  statements of \<open>requestPolling\<close> and \<open>collectRequest\<close> calls made by the two threads
  interleave, the collects that have returned true so far never outnumber the writes
  of true made by requests so far, plus one if the signal started with its flag true
  (as the constructor leaves it); so no request is consumed twice. Every read and
  write of the boolean is made by the thread that holds the mutex, and the two
  threads are never both inside a guarded body.
\<close>

theorem C10_test_and_clear_interleaved:
  "true_collects (history (interleave sched (start sig calls)))
     \<le> request_writes (history (interleave sched (start sig calls)))
         + (if pollingRequested sig then 1 else 0) \<and>
   (\<forall>t. touches_flag (position_of (interleave sched (start sig calls)) t) \<longrightarrow>
        mutex (interleave sched (start sig calls)) = Some t) \<and>
   (\<forall>t u. inside_guard (position_of (interleave sched (start sig calls)) t) \<and>
          inside_guard (position_of (interleave sched (start sig calls)) u) \<longrightarrow> t = u)"
proof -
  let ?s = "interleave sched (start sig calls)"
  have e: "exclusion ?s" and a: "accounted (pollingRequested sig) ?s"
    using invariants_interleave [of "start sig calls" "pollingRequested sig" sched]
      invariants_start [of sig calls]
    by simp_all
  from a have "true_collects (history ?s)
      \<le> request_writes (history ?s) + (if pollingRequested sig then 1 else 0)"
    by (simp add: accounted_def)
  moreover from e have "\<forall>t. touches_flag (position_of ?s t) \<longrightarrow> mutex ?s = Some t"
    by (auto simp: exclusion_def dest: touches_inside)
  moreover from e have
    "\<forall>t u. inside_guard (position_of ?s t) \<and> inside_guard (position_of ?s u) \<longrightarrow> t = u"
    by (auto simp: exclusion_def)
  ultimately show ?thesis by simp
qed

text \<open>
  An instance: the worker has taken the guard and read the flag while the main thread
  waits for the mutex; and, later in the same run, two collects have returned true
  with one request written in between, the first true being the initial one.
\<close>

theorem C10_test_and_clear_witness:
  "touches_flag (position_of
      (interleave [WorkerThread, WorkerThread, MainThread, MainThread, WorkerThread]
         (start EventPollingSignal_ctor (program_calls 2)))
      WorkerThread) \<and>
   mutex
      (interleave [WorkerThread, WorkerThread, MainThread, MainThread, WorkerThread]
         (start EventPollingSignal_ctor (program_calls 2))) = Some WorkerThread \<and>
   position_of
      (interleave [WorkerThread, WorkerThread, MainThread, MainThread, WorkerThread]
         (start EventPollingSignal_ctor (program_calls 2))) MainThread = Req_lock \<and>
   history
      (interleave [WorkerThread, WorkerThread, MainThread, MainThread, WorkerThread,
                   WorkerThread, WorkerThread, MainThread, MainThread, MainThread,
                   WorkerThread, WorkerThread, WorkerThread, WorkerThread, WorkerThread]
         (start EventPollingSignal_ctor (program_calls 2))) =
     [Got WorkerThread True, Wrote MainThread, Got WorkerThread True]"
proof -
  let ?s = "interleave [WorkerThread, WorkerThread, MainThread, MainThread, WorkerThread]
         (start EventPollingSignal_ctor (program_calls 2))"
  have t: "touches_flag (position_of ?s WorkerThread)"
    by code_simp
  then have m: "mutex ?s = Some WorkerThread"
    using C10_test_and_clear_interleaved
      [of "[WorkerThread, WorkerThread, MainThread, MainThread, WorkerThread]"
          EventPollingSignal_ctor "program_calls 2"]
    by blast
  have w: "position_of ?s MainThread = Req_lock"
    by code_simp
  have h: "history
      (interleave [WorkerThread, WorkerThread, MainThread, MainThread, WorkerThread,
                   WorkerThread, WorkerThread, MainThread, MainThread, MainThread,
                   WorkerThread, WorkerThread, WorkerThread, WorkerThread, WorkerThread]
         (start EventPollingSignal_ctor (program_calls 2))) =
     [Got WorkerThread True, Wrote MainThread, Got WorkerThread True]"
    by code_simp
  from t m w h show ?thesis by (intro conjI)
qed

text \<open>
  Without the initial true the bound fails: on the signal as constructed, a first
  \<open>collectRequest\<close> returns true although no \<open>requestPolling\<close> has been called.
\<close>

theorem C10_initial_true_counterexample:
  "history
      (interleave [WorkerThread, WorkerThread, WorkerThread, WorkerThread, WorkerThread]
         (start EventPollingSignal_ctor (program_calls 1))) = [Got WorkerThread True] \<and>
   \<not> true_collects (history
      (interleave [WorkerThread, WorkerThread, WorkerThread, WorkerThread, WorkerThread]
         (start EventPollingSignal_ctor (program_calls 1))))
     \<le> request_writes (history
      (interleave [WorkerThread, WorkerThread, WorkerThread, WorkerThread, WorkerThread]
         (start EventPollingSignal_ctor (program_calls 1))))"
  by code_simp

subsection \<open>Calls are atomic\<close>

text \<open>
  The statements of a call, run by one thread from a state where the mutex is free,
  change the signal exactly as the call-level functions \<open>requestPolling\<close> and
  \<open>collectRequest\<close> say, and a thread that is not inside a guard leaves the signal
  alone. More generally, in every interleaving the values the collects returned are
  the values the call-level functions return when the calls are applied one after
  the other in the order of their guarded bodies, and whenever the mutex is free the
  stored signal is the one these calls leave. This is why the other sections treat a
  call on the signal as one step.
\<close>

lemma requestPolling_statements:
  assumes "position_of s t = Req_lock" and "mutex s = None"
  shows "signal (interleave [t, t, t] s) = requestPolling (signal s) \<and>
         mutex (interleave [t, t, t] s) = None \<and>
         position_of (interleave [t, t, t] s) t = Outside"
  using assms by (simp add: step_at requestPolling_def)

lemma collectRequest_statements:
  assumes "position_of s t = Col_lock" and "mutex s = None"
  shows "signal (interleave [t, t, t, t] s) = snd (collectRequest (signal s)) \<and>
         history (interleave [t, t, t, t] s) =
           history s @ [Got t (fst (collectRequest (signal s)))] \<and>
         mutex (interleave [t, t, t, t] s) = None \<and>
         position_of (interleave [t, t, t, t] s) t = Outside"
  using assms by (simp add: step_at collectRequest_eq)

lemma outside_guard_keeps_signal:
  "\<not> inside_guard (position_of s t) \<Longrightarrow> signal (thread_step t s) = signal s"
  by (cases "position_of s t") (simp_all add: step_at split: list.splits)

lemma replay_app:
  "replay (obs @ obs') sig = (case replay obs sig of None \<Rightarrow> None | Some a \<Rightarrow> replay obs' a)"
  by (induction obs sig rule: replay.induct) (simp_all add: collectRequest_eq)

lemma linearized_outside:
  assumes "exclusion s" and "\<not> inside_guard (position_of s t)" and "linearized sig0 s"
  shows "linearized sig0 (s\<lparr>position_of := (position_of s)(t := p), calls_left := cl\<rparr>)"
proof (cases "mutex s")
  case None
  with assms(3) show ?thesis by (simp add: linearized_def)
next
  case (Some u)
  with assms have "u \<noteq> t" by (simp add: holder_other)
  with Some assms(3) show ?thesis by (simp add: linearized_def)
qed

lemma linearized_step:
  assumes e: "exclusion s" and l: "linearized sig0 s"
  shows "linearized sig0 (thread_step t s)"
proof -
  from l obtain a where a: "replay (history s) sig0 = Some a"
    and ag: "case mutex s of None \<Rightarrow> signal s = a | Some t \<Rightarrow> agrees a (signal s) (position_of s t)"
    by (auto simp: linearized_def)
  show ?thesis
  proof (cases "position_of s t")
    case Outside
    then have "\<not> inside_guard (position_of s t)" by simp
    note linearized_outside [OF e this l]
    with l Outside show ?thesis
      by (cases "calls_left s t") (simp_all add: step_at)
  next
    case Req_lock
    show ?thesis
    proof (cases "mutex s")
      case None
      with a ag Req_lock show ?thesis by (simp add: linearized_def step_at)
    next
      case (Some u)
      with l Req_lock show ?thesis by (simp add: step_at)
    qed
  next
    case Col_lock
    show ?thesis
    proof (cases "mutex s")
      case None
      with a ag Col_lock show ?thesis by (simp add: linearized_def step_at)
    next
      case (Some u)
      with l Col_lock show ?thesis by (simp add: step_at)
    qed
  next
    case Req_write
    then have "mutex s = Some t" using e by (simp add: holder_inside)
    with a ag Req_write show ?thesis
      by (simp add: linearized_def step_at replay_app requestPolling_def)
  next
    case Req_unlock
    then have "mutex s = Some t" using e by (simp add: holder_inside)
    with a ag Req_unlock show ?thesis
      by (simp add: linearized_def step_at)
  next
    case Col_read
    then have "mutex s = Some t" using e by (simp add: holder_inside)
    with a ag Col_read show ?thesis
      by (simp add: linearized_def step_at)
  next
    case (Col_clear requested)
    then have "mutex s = Some t" using e by (simp add: holder_inside)
    with a ag Col_clear show ?thesis
      by (simp add: linearized_def step_at collectRequest_eq)
  next
    case (Col_unlock requested)
    then have "mutex s = Some t" using e by (simp add: holder_inside)
    with a ag Col_unlock show ?thesis
      by (simp add: linearized_def step_at replay_app collectRequest_eq)
  qed
qed

lemma linearized_interleave:
  "exclusion s \<Longrightarrow> linearized sig0 s \<Longrightarrow> linearized sig0 (interleave sched s)"
  by (induction sched arbitrary: s) (simp_all add: exclusion_step linearized_step)

lemma interleaved_calls_linearizable:
  "\<exists>a. replay (history (interleave sched (start sig calls))) sig = Some a \<and>
       (mutex (interleave sched (start sig calls)) = None \<longrightarrow>
        signal (interleave sched (start sig calls)) = a)"
proof -
  have "linearized sig (start sig calls)"
    by (simp add: linearized_def start_def)
  with invariants_start [of sig calls]
  have "linearized sig (interleave sched (start sig calls))"
    by (simp add: linearized_interleave)
  then show ?thesis
    by (auto simp: linearized_def)
qed

end
